theory Spec2Isabelle
  imports Main "HOL-Library.Char_ord" "HOL-Library.List_Lexorder" "HOL-Library.Multiset"
begin

section \<open>Strings and numbers as Python prints them\<close>

text \<open>
  A string is a list of characters with code points below 256, and a character stands for
  the code point of that number. On these, \<open>str.strip()\<close> removes the twelve characters
  that Python counts as whitespace: tab to carriage return, the four separators
  \<open>0x1C\<close> to \<open>0x1F\<close>, the space, the next-line control \<open>0x85\<close> and the no-break space
  \<open>0xA0\<close>.
\<close>

definition is_space :: "char \<Rightarrow> bool" where
  "is_space c = (c \<in> set [CHR 0x09, CHR 0x0A, CHR 0x0B, CHR 0x0C, CHR 0x0D,
                            CHR 0x1C, CHR 0x1D, CHR 0x1E, CHR 0x1F, CHR '' '',
                            CHR 0x85, CHR 0xA0])"

definition strip :: "string \<Rightarrow> string" where
  "strip s = rev (dropWhile is_space (rev (dropWhile is_space s)))"

definition digit_char :: "nat \<Rightarrow> char" where
  "digit_char d = ''0123456789'' ! d"

fun str_nat :: "nat \<Rightarrow> string" where
  "str_nat n = (if n < 10 then [digit_char n] else str_nat (n div 10) @ [digit_char (n mod 10)])"

declare str_nat.simps [simp del]

definition str_int :: "int \<Rightarrow> string" where
  "str_int i = (if i < 0 then CHR ''-'' # str_nat (nat (- i)) else str_nat (nat i))"

text \<open>
  \<open>str.zfill(width)\<close>: a string at least \<open>width\<close> long is returned as it is; otherwise
  zeros are inserted on the left, after a leading sign.
\<close>

definition zfill :: "int \<Rightarrow> string \<Rightarrow> string" where
  "zfill width s =
     (if width \<le> int (length s) then s
      else let pad = replicate (nat width - length s) CHR ''0'' in
        (case s of
           [] \<Rightarrow> pad
         | c # rest \<Rightarrow> if c = CHR ''+'' \<or> c = CHR ''-'' then c # pad @ rest else pad @ s))"

section \<open>Paths\<close>

text \<open>
  A \<open>pathlib.Path\<close> is a directory and a final component. \<open>folder / n\<close> is
  \<open>Path folder n\<close> (for a name \<open>n\<close> without separators), \<open>.name\<close> is the final component, and
  equality is structural, as for \<open>PurePosixPath\<close>.
\<close>

datatype path = Path (parent: string) (name: string)

section \<open>NameSequencer: \<open>plan_renames\<close>\<close>

datatype py_error = ValueError | TypeError | FileNotFoundError | PermissionError
  | LogWriteFailed | UndoFailed

text \<open>The body of the \<open>for i, old_path in enumerate(png_files)\<close> loop, from index \<open>i\<close> on.\<close>

fun plan_loop :: "string \<Rightarrow> int \<Rightarrow> int \<Rightarrow> string \<Rightarrow> string \<Rightarrow> nat \<Rightarrow> path list
    \<Rightarrow> (path \<times> string) list" where
  "plan_loop basename start_index zero_padding prefix suffix i [] = []"
| "plan_loop basename start_index zero_padding prefix suffix i (old_path # rest) =
     (let index = start_index + int i;
          index_str = zfill zero_padding (str_int index);
          new_name = prefix @ basename @ ''_'' @ index_str @ suffix @ ''.png''
      in (old_path, new_name) #
         plan_loop basename start_index zero_padding prefix suffix (Suc i) rest)"

definition plan_renames :: "path list \<Rightarrow> string \<Rightarrow> int \<Rightarrow> int \<Rightarrow> string \<Rightarrow> string
    \<Rightarrow> py_error + (path \<times> string) list" where
  "plan_renames png_files basename start_index zero_padding prefix suffix =
     (if strip basename = [] then Inl ValueError
      else if png_files = [] then Inr []
      else
        let zero_padding =
              (if zero_padding = 0
               then (let total_files = int (length png_files);
                         max_index = start_index + total_files - 1
                     in int (length (str_int max_index)))
               else zero_padding)
        in Inr (plan_loop basename start_index zero_padding prefix suffix 0 png_files))"

text \<open>The number of decimal digits of an integer, as the specification counts them.\<close>

fun decimal_digits_nat :: "nat \<Rightarrow> nat" where
  "decimal_digits_nat n = (if n < 10 then 1 else Suc (decimal_digits_nat (n div 10)))"

declare decimal_digits_nat.simps [simp del]

definition decimal_digits :: "int \<Rightarrow> nat" where
  "decimal_digits i = decimal_digits_nat (nat \<bar>i\<bar>)"

text \<open>
  \<open>zeroPad(index, width)\<close> as the specification means it, written out: the decimal digits of
  the index with as many zeros in front as it takes to reach the width. For a negative index
  the minus sign comes first and counts towards the width.
\<close>

definition zero_pad :: "int \<Rightarrow> int \<Rightarrow> string" where
  "zero_pad width i =
     (if 0 \<le> i
      then replicate (nat width - length (str_nat (nat i))) CHR ''0'' @ str_nat (nat i)
      else CHR ''-'' # replicate (nat width - Suc (length (str_nat (nat (- i))))) CHR ''0'' @
             str_nat (nat (- i)))"

text \<open>Reading a printed integer back: the left inverse used to tell target names apart.\<close>

definition digit_val :: "char \<Rightarrow> nat" where
  "digit_val c = of_char c - 48"

definition digits_val :: "string \<Rightarrow> nat" where
  "digits_val s = foldl (\<lambda>a c. 10 * a + digit_val c) 0 s"

definition parse_int :: "string \<Rightarrow> int" where
  "parse_int s = (case s of [] \<Rightarrow> 0 | c # r \<Rightarrow> if c = CHR ''-'' then - int (digits_val r) else int (digits_val s))"


section \<open>The file system\<close>

text \<open>
  The directory holds regular files only. A file is either an image, known by a number that
  stands for its contents, or the ledger, known by its rows
  \<open>(old_path, new_path, timestamp)\<close>; the header row of the CSV file is implicit, and paths and
  strings are taken to survive the CSV round trip unchanged.

  \<open>locked\<close> is the set of paths that the operating system refuses to create or replace
  (permissions, a directory in the way): it is how an I/O failure enters the model.
  \<open>journal\<close> is a ghost field: it records every mutation, oldest first, and for a rename
  whether it replaced an existing file other than its own source. No operation reads it.
\<close>

datatype content = Blob nat | Ledger "(path \<times> path \<times> string) list"

datatype event = Renamed path path bool | Removed path | Written path

record filesystem =
  files :: "path \<rightharpoonup> content"
  locked :: "path set"
  journal :: "event list"

text \<open>\<open>Path.exists()\<close>: a read, the state comes back as it was.\<close>

definition path_exists :: "path \<Rightarrow> filesystem \<Rightarrow> bool \<times> filesystem" where
  "path_exists p fs = (files fs p \<noteq> None, fs)"

text \<open>
  \<open>Path.rename(target)\<close> with POSIX semantics: a missing source raises, an existing target is
  replaced silently. \<open>None\<close> is a normal return, \<open>Some e\<close> the exception raised.
\<close>

definition os_rename :: "path \<Rightarrow> path \<Rightarrow> filesystem \<Rightarrow> py_error option \<times> filesystem" where
  "os_rename src dst fs =
     (case files fs src of
        None \<Rightarrow> (Some FileNotFoundError, fs)
      | Some c \<Rightarrow>
          if dst \<in> locked fs then (Some PermissionError, fs)
          else (None, fs\<lparr>files := (files fs)(src := None, dst \<mapsto> c),
                          journal := journal fs @
                            [Renamed src dst (files fs dst \<noteq> None \<and> dst \<noteq> src)]\<rparr>))"

definition os_remove :: "path \<Rightarrow> filesystem \<Rightarrow> py_error option \<times> filesystem" where
  "os_remove p fs =
     (if files fs p = None then (Some FileNotFoundError, fs)
      else (None, fs\<lparr>files := (files fs)(p := None), journal := journal fs @ [Removed p]\<rparr>))"

text \<open>The destinations at which a rename replaced another file, read off the journal.\<close>

fun clobbered :: "event list \<Rightarrow> path list" where
  "clobbered [] = []"
| "clobbered (Renamed src dst True # es) = dst # clobbered es"
| "clobbered (e # es) = clobbered es"

fun removed :: "event list \<Rightarrow> path list" where
  "removed [] = []"
| "removed (Removed p # es) = p # removed es"
| "removed (e # es) = removed es"

section \<open>CollisionDetector: \<open>detect_collisions\<close>\<close>

definition DuplicateTarget :: "string \<Rightarrow> string" where
  "DuplicateTarget new_name = ''Duplicate target name: '' @ new_name"

definition TargetExists :: "string \<Rightarrow> string" where
  "TargetExists new_name = ''Would overwrite existing file: '' @ new_name"

fun detect_loop :: "(path \<times> string) list \<Rightarrow> string \<Rightarrow> string list \<Rightarrow> string set \<Rightarrow> filesystem
    \<Rightarrow> string list \<times> filesystem" where
  "detect_loop [] folder collisions new_names fs = (collisions, fs)"
| "detect_loop ((old_path, new_name) # rest) folder collisions new_names fs =
     (let new_path = Path folder new_name;
          collisions = (if new_name \<in> new_names
                        then collisions @ [DuplicateTarget new_name] else collisions);
          new_names = insert new_name new_names;
          (ex, fs) = path_exists new_path fs;
          collisions = (if ex \<and> new_path \<noteq> old_path
                        then collisions @ [TargetExists new_name] else collisions)
      in detect_loop rest folder collisions new_names fs)"

definition detect_collisions :: "(path \<times> string) list \<Rightarrow> string \<Rightarrow> filesystem
    \<Rightarrow> string list \<times> filesystem" where
  "detect_collisions renames folder_path fs = detect_loop renames folder_path [] {} fs"

text \<open>
  What one plan entry contributes, given the target names \<open>seen\<close> before it: the declarative
  reading of the specification, against which the loop is checked.
\<close>

definition entry_collisions :: "string set \<Rightarrow> filesystem \<Rightarrow> string \<Rightarrow> path \<times> string \<Rightarrow> string list" where
  "entry_collisions seen fs folder e =
     (if snd e \<in> seen then [DuplicateTarget (snd e)] else []) @
     (if files fs (Path folder (snd e)) \<noteq> None \<and> Path folder (snd e) \<noteq> fst e
      then [TargetExists (snd e)] else [])"

section \<open>RenameExecutor: \<open>two_phase_rename\<close>\<close>

text \<open>
  \<open>datetime.now()\<close> is read once for every staged file. A clock is the sequence of the values
  it returns; \<open>strftime_stamp\<close> is \<open>strftime('%Y%m%d_%H%M%S_%f')\<close>.
\<close>

record datetime =
  year :: nat
  month :: nat
  day :: nat
  hour :: nat
  minute :: nat
  second :: nat
  microsecond :: nat

definition zpad :: "nat \<Rightarrow> nat \<Rightarrow> string" where
  "zpad w n = zfill (int w) (str_nat n)"

definition strftime_stamp :: "datetime \<Rightarrow> string" where
  "strftime_stamp t =
     zpad 4 (year t) @ zpad 2 (month t) @ zpad 2 (day t) @ ''_'' @
     zpad 2 (hour t) @ zpad 2 (minute t) @ zpad 2 (second t) @ ''_'' @
     zpad 6 (microsecond t)"

text \<open>\<open>s.split(sep, maxsplit)\<close> for a separator of one character.\<close>

fun split_max :: "char \<Rightarrow> nat \<Rightarrow> string \<Rightarrow> string list" where
  "split_max sep 0 s = [s]"
| "split_max sep (Suc k) s =
     (if sep \<in> set s
      then takeWhile (\<lambda>c. c \<noteq> sep) s # split_max sep k (tl (dropWhile (\<lambda>c. c \<noteq> sep) s))
      else [s])"

text \<open>
  \<open>temp_path.name.split('_', 3)[-1] if '_' in temp_path.name else temp_path.name\<close>: how both
  the commit phase and the rollback recover the original name from the temporary one.
\<close>

definition original_name_of :: "string \<Rightarrow> string" where
  "original_name_of temp_name =
     (if CHR ''_'' \<in> set temp_name then last (split_max CHR ''_'' 3 temp_name) else temp_name)"

definition temp_name_of :: "datetime \<Rightarrow> string \<Rightarrow> string" where
  "temp_name_of now old_name = ''temp_'' @ strftime_stamp now @ ''_'' @ old_name"

text \<open>Phase 1: rename to temporary names. The result carries \<open>temp_names\<close> as far as it got.\<close>

fun phase1 :: "(path \<times> string) list \<Rightarrow> string \<Rightarrow> (nat \<Rightarrow> datetime) \<Rightarrow> (path \<times> string) list
    \<Rightarrow> filesystem \<Rightarrow> py_error option \<times> (path \<times> string) list \<times> filesystem" where
  "phase1 [] folder clock temp_names fs = (None, temp_names, fs)"
| "phase1 ((old_path, new_name) # rest) folder clock temp_names fs =
     (if name old_path \<noteq> new_name then
        (let temp_name = temp_name_of (clock 0) (name old_path);
             temp_path = Path folder temp_name
         in case os_rename old_path temp_path fs of
              (Some e, fs') \<Rightarrow> (Some e, temp_names, fs')
            | (None, fs') \<Rightarrow>
                phase1 rest folder (\<lambda>k. clock (Suc k)) (temp_names @ [(temp_path, new_name)]) fs')
      else phase1 rest folder clock temp_names fs)"

text \<open>Phase 2: rename from temporary to final names.\<close>

fun phase2 :: "(path \<times> string) list \<Rightarrow> string \<Rightarrow> (path \<times> path) list \<Rightarrow> filesystem
    \<Rightarrow> py_error option \<times> (path \<times> path) list \<times> filesystem" where
  "phase2 [] folder final_renames fs = (None, final_renames, fs)"
| "phase2 ((temp_path, new_name) # rest) folder final_renames fs =
     (let new_path = Path folder new_name
      in case os_rename temp_path new_path fs of
           (Some e, fs') \<Rightarrow> (Some e, final_renames, fs')
         | (None, fs') \<Rightarrow>
             (let original_name = original_name_of (name temp_path);
                  original_path = Path folder original_name
              in phase2 rest folder (final_renames @ [(original_path, new_path)]) fs'))"

text \<open>The \<open>except\<close> handler: every temporary file that still exists is renamed back; a failure
  of one of these renames is swallowed.\<close>

fun rollback :: "(path \<times> string) list \<Rightarrow> string \<Rightarrow> filesystem \<Rightarrow> filesystem" where
  "rollback [] folder fs = fs"
| "rollback ((temp_path, new_name) # rest) folder fs =
     (let (ex, fs) = path_exists temp_path fs
      in if ex then
           (let original_name = original_name_of (name temp_path);
                original_path = Path folder original_name;
                (r, fs) = os_rename temp_path original_path fs
            in rollback rest folder fs)
         else rollback rest folder fs)"

definition two_phase_rename :: "(path \<times> string) list \<Rightarrow> string \<Rightarrow> (nat \<Rightarrow> datetime) \<Rightarrow> filesystem
    \<Rightarrow> (py_error + (path \<times> path) list) \<times> filesystem" where
  "two_phase_rename renames folder_path clock fs =
     (case phase1 renames folder_path clock [] fs of
        (Some e, temp_names, fs1) \<Rightarrow> (Inl e, rollback temp_names folder_path fs1)
      | (None, temp_names, fs1) \<Rightarrow>
          (case phase2 temp_names folder_path [] fs1 of
             (Some e, final_renames, fs2) \<Rightarrow> (Inl e, rollback temp_names folder_path fs2)
           | (None, final_renames, fs2) \<Rightarrow> (Inr final_renames, fs2)))"

section \<open>RenameLedger: \<open>write_log\<close> and \<open>undo_from_log\<close>\<close>

text \<open>\<open>timestamp\<close> is the value of \<open>datetime.now().isoformat()\<close>, taken once for the batch.\<close>

definition write_log :: "(path \<times> path) list \<Rightarrow> path \<Rightarrow> string \<Rightarrow> filesystem
    \<Rightarrow> py_error option \<times> filesystem" where
  "write_log renames log_file_path timestamp fs =
     (if log_file_path \<in> locked fs then (Some LogWriteFailed, fs)
      else (None, fs\<lparr>files := (files fs)(log_file_path \<mapsto>
                        Ledger (map (\<lambda>(old_path, new_path). (old_path, new_path, timestamp)) renames)),
                      journal := journal fs @ [Written log_file_path]\<rparr>))"

fun undo_loop :: "(path \<times> path \<times> string) list \<Rightarrow> (path \<times> path) list \<Rightarrow> filesystem
    \<Rightarrow> py_error option \<times> (path \<times> path) list \<times> filesystem" where
  "undo_loop [] undone fs = (None, undone, fs)"
| "undo_loop ((old_path, new_path, ts) # rest) undone fs =
     (let (ex, fs) = path_exists new_path fs
      in if ex then
           (case os_rename new_path old_path fs of
              (Some e, fs') \<Rightarrow> (Some e, undone, fs')
            | (None, fs') \<Rightarrow> undo_loop rest (undone @ [(new_path, old_path)]) fs')
         else undo_loop rest undone fs)"

text \<open>
  The rows are those the file held when it was opened: the open handle keeps reading them
  whatever the renames do to the directory entry. A file that is not a ledger cannot be read
  as one, which raises inside the \<open>try\<close> block.
\<close>

definition undo_from_log :: "path \<Rightarrow> filesystem \<Rightarrow> (py_error + (path \<times> path) list) \<times> filesystem" where
  "undo_from_log log_file_path fs =
     (case files fs log_file_path of
        None \<Rightarrow> (Inl FileNotFoundError, fs)
      | Some (Blob b) \<Rightarrow> (Inl UndoFailed, fs)
      | Some (Ledger rows) \<Rightarrow>
          (case undo_loop rows [] fs of
             (Some e, undone, fs1) \<Rightarrow> (Inl UndoFailed, fs1)
           | (None, undone, fs1) \<Rightarrow>
               (case os_remove log_file_path fs1 of
                  (Some e, fs2) \<Rightarrow> (Inl UndoFailed, fs2)
                | (None, fs2) \<Rightarrow> (Inr undone, fs2))))"

text \<open>
  A whole batch followed by its undo, as the application chains them: execute, write the
  ledger, undo from the ledger. A failure of one step ends the chain.
\<close>

definition execute_write_undo :: "(path \<times> string) list \<Rightarrow> string \<Rightarrow> (nat \<Rightarrow> datetime) \<Rightarrow> path
    \<Rightarrow> string \<Rightarrow> filesystem \<Rightarrow> (py_error + (path \<times> path) list) \<times> filesystem" where
  "execute_write_undo renames folder_path clock log_file_path timestamp fs =
     (case two_phase_rename renames folder_path clock fs of
        (Inl e, fs1) \<Rightarrow> (Inl e, fs1)
      | (Inr completed_renames, fs1) \<Rightarrow>
          (case write_log completed_renames log_file_path timestamp fs1 of
             (Some e, fs2) \<Rightarrow> (Inl e, fs2)
           | (None, fs2) \<Rightarrow> undo_from_log log_file_path fs2))"

text \<open>
  The declarative reading of undo. \<open>undo_step\<close> is what one record does to the directory when
  its rename goes through (nothing when its final path is missing); \<open>files_before rows m k\<close> is
  the directory as record \<open>k\<close> finds it, after the records before it.
\<close>

definition undo_step :: "path \<times> path \<times> string \<Rightarrow> (path \<rightharpoonup> content) \<Rightarrow> (path \<rightharpoonup> content)" where
  "undo_step r m =
     (case m (fst (snd r)) of None \<Rightarrow> m | Some c \<Rightarrow> m(fst (snd r) := None, fst r \<mapsto> c))"

definition files_before :: "(path \<times> path \<times> string) list \<Rightarrow> (path \<rightharpoonup> content) \<Rightarrow> nat
    \<Rightarrow> (path \<rightharpoonup> content)" where
  "files_before rows m k = fold undo_step (take k rows) m"

definition undone_records :: "(path \<times> path \<times> string) list \<Rightarrow> (path \<rightharpoonup> content) \<Rightarrow> (path \<times> path) list" where
  "undone_records rows m =
     map (\<lambda>k. (fst (snd (rows ! k)), fst (rows ! k)))
         (filter (\<lambda>k. files_before rows m k (fst (snd (rows ! k))) \<noteq> None) [0..<length rows])"

section \<open>Listing: \<open>natural_sort_key\<close> and \<open>get_png_files\<close>\<close>

text \<open>
  Three classes of characters, on the code points below 256. \<open>is_digit\<close> is the class
  \<open>\d\<close> of the regular expression, the ten decimal digits. \<open>str.isdigit()\<close> also accepts the
  superscript digits \<open>0xB2\<close>, \<open>0xB3\<close> and \<open>0xB9\<close>, which \<open>int()\<close> rejects. \<open>str.lower()\<close> maps
  \<open>A\<close> to \<open>Z\<close> and the accented capitals \<open>0xC0\<close> to \<open>0xDE\<close>, the multiplication sign \<open>0xD7\<close>
  apart, to the letter 32 places further on.
\<close>

definition is_digit :: "char \<Rightarrow> bool" where
  "is_digit c = (CHR ''0'' \<le> c \<and> c \<le> CHR ''9'')"










text \<open>
  A key is a list of chunks, \<open>int(t) if t.isdigit() else t.lower()\<close> for every run \<open>t\<close>. The
  list comprehension raises as soon as one \<open>int(t)\<close> does.
\<close>

datatype chunk = Num nat | Str string






text \<open>
  The same order made total, so that the library's stable sort can stand for \<open>list.sort\<close>:
  numbers by value, strings by code points, and a number before a string. The last case is
  never put to use on keys of \<open>natural_sort_key\<close>: Python's comparison of two such keys
  never raises and agrees with this order, as is shown below.
\<close>

instantiation chunk :: linorder
begin

fun less_eq_chunk :: "chunk \<Rightarrow> chunk \<Rightarrow> bool" where
  "less_eq_chunk (Num a) (Num b) = (a \<le> b)"
| "less_eq_chunk (Str a) (Str b) = (a \<le> b)"
| "less_eq_chunk (Num a) (Str b) = True"
| "less_eq_chunk (Str a) (Num b) = False"

definition less_chunk :: "chunk \<Rightarrow> chunk \<Rightarrow> bool" where
  "less_chunk x y = (x \<le> y \<and> \<not> y \<le> x)"

instance
proof
  fix x y z :: chunk
  show "(x < y) = (x \<le> y \<and> \<not> y \<le> x)" by (simp add: less_chunk_def)
  show "x \<le> x" by (cases x) simp_all
  show "x \<le> y \<Longrightarrow> y \<le> z \<Longrightarrow> x \<le> z" by (cases x; cases y; cases z) auto
  show "x \<le> y \<Longrightarrow> y \<le> x \<Longrightarrow> x = y" by (cases x; cases y) auto
  show "x \<le> y \<or> y \<le> x" by (cases x; cases y) auto
qed

end





section \<open>Example directories\<close>

definition fs_demo :: filesystem where
  "fs_demo = \<lparr>files = [Path ''d'' ''x.png'' \<mapsto> Blob 1, Path ''d'' ''a.png'' \<mapsto> Blob 2],
              locked = {}, journal = []\<rparr>"

definition clock_demo :: "nat \<Rightarrow> datetime" where
  "clock_demo k = \<lparr>year = 2024, month = 1, day = 15, hour = 10, minute = 30, second = 0,
                    microsecond = k\<rparr>"

definition fs_one :: filesystem where
  "fs_one = \<lparr>files = [Path ''d'' ''a.png'' \<mapsto> Blob 1], locked = {}, journal = []\<rparr>"

definition fs_two :: filesystem where
  "fs_two = \<lparr>files = [Path ''d'' ''a.png'' \<mapsto> Blob 1, Path ''d'' ''b.png'' \<mapsto> Blob 2],
             locked = {}, journal = []\<rparr>"

definition fs_two_locked :: filesystem where
  "fs_two_locked = \<lparr>files = [Path ''d'' ''a.png'' \<mapsto> Blob 1, Path ''d'' ''b.png'' \<mapsto> Blob 2],
             locked = {Path ''d'' ''shot_1.png''}, journal = []\<rparr>"

definition plan_ok :: "(path \<times> string) list" where
  "plan_ok = [(Path ''d'' ''a.png'', ''shot_1.png''), (Path ''d'' ''b.png'', ''shot_2.png'')]"

definition plan_mixed :: "(path \<times> string) list" where
  "plan_mixed = [(Path ''d'' ''a.png'', ''shot_1.png''), (Path ''d'' ''b.png'', ''b.png'')]"

text \<open>A plan whose first target is the temporary name that the second entry will be staged under.\<close>

definition plan_stale :: "(path \<times> string) list" where
  "plan_stale = [(Path ''d'' ''b.png'', ''temp_20240115_103000_000001_a.png''),
                 (Path ''d'' ''a.png'', ''z.png'')]"

definition log_demo :: path where
  "log_demo = Path ''d'' ''rename_log.csv''"

definition rows_demo :: "(path \<times> path \<times> string) list" where
  "rows_demo = [(Path ''d'' ''a.png'', Path ''d'' ''shot_1.png'', ''2024-01-15T10:30:00''),
                (Path ''d'' ''b.png'', Path ''d'' ''shot_2.png'', ''2024-01-15T10:30:00'')]"

text \<open>After a batch: the first file is at its final path, the second has since been removed.\<close>

definition fs_ledger :: filesystem where
  "fs_ledger = \<lparr>files = [log_demo \<mapsto> Ledger rows_demo, Path ''d'' ''shot_1.png'' \<mapsto> Blob 1],
                locked = {}, journal = []\<rparr>"

definition fs_ledger_locked :: filesystem where
  "fs_ledger_locked = \<lparr>files = [log_demo \<mapsto> Ledger rows_demo, Path ''d'' ''shot_1.png'' \<mapsto> Blob 1],
                locked = {Path ''d'' ''a.png''}, journal = []\<rparr>"

text \<open>A ledger whose first record names the ledger file itself as a final path.\<close>

definition rows_selfref :: "(path \<times> path \<times> string) list" where
  "rows_selfref = [(Path ''d'' ''x.csv'', log_demo, ''2024-01-15T10:30:00''),
                   (Path ''d'' ''y.png'', Path ''d'' ''z.png'', ''2024-01-15T10:30:00'')]"

definition fs_selfref :: filesystem where
  "fs_selfref = \<lparr>files = [log_demo \<mapsto> Ledger rows_selfref, Path ''d'' ''z.png'' \<mapsto> Blob 1],
                 locked = {Path ''d'' ''y.png''}, journal = []\<rparr>"



section \<open>Properties of \<open>plan_renames\<close>\<close>

lemma plan_loop_length:
  "length (plan_loop b s z p q i fs) = length fs"
  by (induction fs arbitrary: i) (simp_all add: Let_def)

lemma plan_loop_nth:
  "k < length fs \<Longrightarrow> plan_loop b s z p q i fs ! k =
     (fs ! k, p @ b @ ''_'' @ zfill z (str_int (s + int (i + k))) @ q @ ''.png'')"
proof (induction fs arbitrary: i k)
  case Nil then show ?case by simp
next
  case (Cons a fs)
  show ?case
  proof (cases k)
    case 0 then show ?thesis by (simp add: Let_def)
  next
    case (Suc j)
    with Cons.prems have "j < length fs" by simp
    from Cons.IH[OF this, of "Suc i"] Suc show ?thesis by (simp add: Let_def)
  qed
qed

lemma str_nat_length: "length (str_nat n) = decimal_digits_nat n"
proof (induction n rule: str_nat.induct)
  case (1 n)
  show ?case
  proof (cases "n < 10")
    case True then show ?thesis by (simp add: str_nat.simps[of n] decimal_digits_nat.simps[of n])
  next
    case False
    with 1 show ?thesis by (simp add: str_nat.simps[of n] decimal_digits_nat.simps[of n])
  qed
qed

lemma decimal_digits_nat_mono: "a \<le> b \<Longrightarrow> decimal_digits_nat a \<le> decimal_digits_nat b"
proof (induction b arbitrary: a rule: decimal_digits_nat.induct)
  case (1 b)
  show ?case
  proof (cases "b < 10")
    case True
    with 1 have "a < 10" by simp
    with True show ?thesis by (simp add: decimal_digits_nat.simps[of a] decimal_digits_nat.simps[of b])
  next
    case False
    show ?thesis
    proof (cases "a < 10")
      case True
      with False show ?thesis by (simp add: decimal_digits_nat.simps[of a] decimal_digits_nat.simps[of b])
    next
      case F2: False
      from "1.prems" have "a div 10 \<le> b div 10" by (rule div_le_mono)
      from "1.IH"[OF False this] False F2 show ?thesis
        by (simp add: decimal_digits_nat.simps[of a] decimal_digits_nat.simps[of b])
    qed
  qed
qed

lemma decimal_digits_nat_pos: "0 < decimal_digits_nat n"
  by (simp add: decimal_digits_nat.simps[of n])


lemma digit_char_cases: "d < 10 \<Longrightarrow> digit_char d \<in> set ''0123456789''"
  unfolding digit_char_def by (rule nth_mem) simp

lemma digit_val_digit_char: "d < 10 \<Longrightarrow> digit_val (digit_char d) = d"
proof -
  assume "d < 10"
  then have "d \<in> {0,1,2,3,4,5,6,7,8,9}" by auto
  then show ?thesis by (auto simp: digit_char_def digit_val_def)
qed

lemma digits_val_snoc: "digits_val (s @ [c]) = 10 * digits_val s + digit_val c"
  by (simp add: digits_val_def)

lemma digits_val_str_nat: "digits_val (str_nat n) = n"
proof (induction n rule: str_nat.induct)
  case (1 n)
  show ?case
  proof (cases "n < 10")
    case True
    then show ?thesis by (simp add: str_nat.simps[of n] digits_val_def digit_val_digit_char)
  next
    case False
    with 1 show ?thesis
      by (simp add: str_nat.simps[of n] digits_val_snoc digit_val_digit_char)
  qed
qed

lemma digits_val_zeros: "digits_val (replicate k CHR ''0'' @ s) = digits_val s"
proof -
  have "foldl (\<lambda>a c. 10 * a + digit_val c) 0 (replicate k CHR ''0'') = 0"
    by (induction k) (simp_all add: digit_val_def)
  then show ?thesis by (simp add: digits_val_def)
qed

lemma str_nat_set: "set (str_nat n) \<subseteq> set ''0123456789''"
proof (induction n rule: str_nat.induct)
  case (1 n)
  show ?case
  proof (cases "n < 10")
    case True
    then show ?thesis using digit_char_cases[of n] by (simp add: str_nat.simps[of n])
  next
    case False
    with 1 show ?thesis using digit_char_cases[of "n mod 10"] by (simp add: str_nat.simps[of n])
  qed
qed

lemma str_nat_nonempty: "str_nat n \<noteq> []"
  using str_nat_length[of n] decimal_digits_nat_pos[of n] by auto

lemma hd_str_nat: "hd (str_nat n) \<in> set ''0123456789''"
  using str_nat_set[of n] str_nat_nonempty[of n] hd_in_set by blast

lemma parse_zfill: "parse_int (zfill w (str_int i)) = i"
proof (cases "i < 0")
  case True
  then show ?thesis
    by (simp add: zfill_def str_int_def parse_int_def Let_def digits_val_zeros digits_val_str_nat)
next
  case False
  obtain c r where cr: "str_nat (nat i) = c # r" using str_nat_nonempty[of "nat i"] by (cases "str_nat (nat i)") auto
  with hd_str_nat[of "nat i"] have c: "c \<noteq> CHR ''-''" "c \<noteq> CHR ''+''" by auto
  have dv: "digits_val (c # r) = nat i" using digits_val_str_nat[of "nat i"] cr by simp
  have dz: "digits_val (replicate k CHR ''0'' @ c # r) = nat i" for k
    using digits_val_zeros[of k "c # r"] dv by simp
  show ?thesis
  proof (cases "w \<le> int (length (c # r))")
    case True
    with False cr c dv show ?thesis by (simp add: zfill_def str_int_def parse_int_def)
  next
    case F: False
    define k where "k = nat w - length (c # r)"
    from F have "0 < k" by (simp add: k_def)
    then obtain k' where k': "k = Suc k'" by (cases k) auto
    have "zfill w (str_int i) = replicate k CHR ''0'' @ c # r"
      using False F cr c by (simp add: zfill_def str_int_def Let_def k_def)
    then show ?thesis using dz[of k] False k' by (simp add: parse_int_def)
  qed
qed

lemma zfill_inj: "zfill w (str_int i) = zfill w (str_int j) \<Longrightarrow> i = j"
  using parse_zfill by metis

lemma str_int_length_nonneg: "0 \<le> i \<Longrightarrow> length (str_int i) = decimal_digits i"
  by (simp add: str_int_def decimal_digits_def str_nat_length)

lemma str_int_length_neg: "i < 0 \<Longrightarrow> length (str_int i) = Suc (decimal_digits i)"
proof -
  assume "i < 0"
  then have "nat (- i) = nat \<bar>i\<bar>" by simp
  with \<open>i < 0\<close> show ?thesis by (simp add: str_int_def decimal_digits_def str_nat_length)
qed

lemma auto_width_agrees:
  assumes "idx \<le> mx"
  shows "zfill (int (length (str_int mx))) (str_int idx) = zfill (int (decimal_digits mx)) (str_int idx)"
proof (cases "0 \<le> mx")
  case True
  then show ?thesis by (simp add: str_int_length_nonneg)
next
  case False
  with assms have neg: "mx < 0" "idx < 0" by auto
  from assms neg have "nat \<bar>mx\<bar> \<le> nat \<bar>idx\<bar>" by simp
  then have "decimal_digits mx \<le> decimal_digits idx"
    unfolding decimal_digits_def by (rule decimal_digits_nat_mono)
  with neg show ?thesis by (simp add: zfill_def str_int_length_neg)
qed

lemma plan_loop_targets_distinct:
  "distinct (map snd (plan_loop b s z p q i fs))"
proof -
  let ?t = "\<lambda>k. p @ b @ ''_'' @ zfill z (str_int (s + int (i + k))) @ q @ ''.png''"
  let ?pl = "plan_loop b s z p q i fs"
  have len: "length ?pl = length fs" by (rule plan_loop_length)
  have nth: "\<And>k. k < length fs \<Longrightarrow> map snd ?pl ! k = ?t k"
    using plan_loop_nth[of _ fs b s z p q i] len by simp
  show ?thesis
  proof (rule iffD2[OF distinct_conv_nth], intro allI impI)
    fix a c
    assume a: "a < length (map snd ?pl)" and c: "c < length (map snd ?pl)" and ac: "a \<noteq> c"
    show "map snd ?pl ! a \<noteq> map snd ?pl ! c"
    proof
      assume "map snd ?pl ! a = map snd ?pl ! c"
      with a c len have "?t a = ?t c" using nth by simp
      then have "zfill z (str_int (s + int (i + a))) = zfill z (str_int (s + int (i + c)))"
        by simp
      then have "s + int (i + a) = s + int (i + c)" by (rule zfill_inj)
      with ac show False by simp
    qed
  qed
qed

lemma zfill_zero_pad: "zfill w (str_int i) = zero_pad w i"
proof (cases "0 \<le> i")
  case True
  obtain c r where cr: "str_nat (nat i) = c # r"
    using str_nat_nonempty[of "nat i"] by (cases "str_nat (nat i)") auto
  with hd_str_nat[of "nat i"] have c: "c \<noteq> CHR ''-''" "c \<noteq> CHR ''+''" by auto
  show ?thesis
  proof (cases "w \<le> int (length (c # r))")
    case le: True
    then have "nat w - length (c # r) = 0" by simp
    with True le cr show ?thesis by (simp add: zfill_def zero_pad_def str_int_def)
  next
    case False
    with True cr c show ?thesis by (simp add: zfill_def zero_pad_def str_int_def Let_def)
  qed
next
  case False
  show ?thesis
  proof (cases "w \<le> int (Suc (length (str_nat (nat (- i)))))")
    case le: True
    then have "nat w - Suc (length (str_nat (nat (- i)))) = 0" by simp
    with False le show ?thesis by (simp add: zfill_def zero_pad_def str_int_def)
  next
    case gt: False
    with False show ?thesis by (simp add: zfill_def zero_pad_def str_int_def Let_def)
  qed
qed

text \<open>
  Claim C5, as stated, fails for a basename that is not empty but blank: \<open>plan_renames\<close> tests
  \<open>basename.strip()\<close>, so a basename of one space raises \<open>ValueError\<close> on a non-empty file list.
\<close>

theorem plan_blank_basename_counterexample:
  "'' '' \<noteq> [] \<and> [Path ''d'' ''a.png''] \<noteq> [] \<and>
   plan_renames [Path ''d'' ''a.png''] '' '' 1 0 [] [] = Inl ValueError"
  by (simp add: plan_renames_def strip_def is_space_def)

text \<open>
  Claim C5, amended. For a non-empty file list and a basename that is not empty after
  trimming whitespace, \<open>plan_renames\<close> returns one entry per input file, in order; the target
  of the \<open>i\<close>-th entry is
  \<open>prefix + basename + "_" + zeroPad(startIndex + i, width) + suffix + ".png"\<close>, where \<open>width\<close>
  is \<open>zero_padding\<close> when that is not zero and the number of decimal digits of
  \<open>startIndex + len(files) - 1\<close> otherwise, and \<open>zeroPad\<close> is \<open>zero_pad\<close>, the padding written
  out with \<open>replicate\<close>; every target ends in \<open>.png\<close> and the targets are pairwise distinct.
  (The code takes \<open>len(str(max_index))\<close>, which counts the sign of a negative index;
  \<open>auto_width_agrees\<close> shows that no target name depends on the difference.)
\<close>

theorem plan_renames_spec:
  assumes "png_files \<noteq> []" and "strip basename \<noteq> []"
  shows "\<exists>plan. plan_renames png_files basename start_index zero_padding prefix suffix = Inr plan
      \<and> length plan = length png_files
      \<and> (\<forall>i<length png_files. plan ! i =
            (png_files ! i,
             prefix @ basename @ ''_'' @
             zero_pad (if zero_padding \<noteq> 0 then zero_padding
                       else int (decimal_digits (start_index + int (length png_files) - 1)))
                      (start_index + int i) @ suffix @ ''.png''))
      \<and> (\<forall>i<length png_files. \<exists>stem. snd (plan ! i) = stem @ ''.png'')
      \<and> distinct (map snd plan)"
proof -
  define w where "w = (if zero_padding = 0
     then int (length (str_int (start_index + int (length png_files) - 1))) else zero_padding)"
  define plan where "plan = plan_loop basename start_index w prefix suffix 0 png_files"
  have eq: "plan_renames png_files basename start_index zero_padding prefix suffix = Inr plan"
    using assms by (simp add: plan_renames_def plan_def w_def Let_def)
  have len: "length plan = length png_files" by (simp add: plan_def plan_loop_length)
  have nth: "plan ! i = (png_files ! i, prefix @ basename @ ''_'' @
       zfill w (str_int (start_index + int i)) @ suffix @ ''.png'')" if "i < length png_files" for i
    using plan_loop_nth[OF that, of basename start_index w prefix suffix 0] by (simp add: plan_def)
  have wd: "zfill w (str_int (start_index + int i)) =
      zero_pad (if zero_padding \<noteq> 0 then zero_padding
                else int (decimal_digits (start_index + int (length png_files) - 1)))
               (start_index + int i)" if "i < length png_files" for i
  proof (cases "zero_padding = 0")
    case True
    from that have "start_index + int i \<le> start_index + int (length png_files) - 1" by simp
    from auto_width_agrees[OF this] True show ?thesis
      by (simp add: w_def zfill_zero_pad)
  next
    case False then show ?thesis by (simp add: w_def zfill_zero_pad)
  qed
  have c3: "\<forall>i<length png_files. plan ! i =
            (png_files ! i,
             prefix @ basename @ ''_'' @
             zero_pad (if zero_padding \<noteq> 0 then zero_padding
                       else int (decimal_digits (start_index + int (length png_files) - 1)))
                      (start_index + int i) @ suffix @ ''.png'')"
  proof (intro allI impI)
    fix i assume i: "i < length png_files"
    show "plan ! i =
            (png_files ! i,
             prefix @ basename @ ''_'' @
             zero_pad (if zero_padding \<noteq> 0 then zero_padding
                       else int (decimal_digits (start_index + int (length png_files) - 1)))
                      (start_index + int i) @ suffix @ ''.png'')"
      unfolding wd[OF i, symmetric] by (rule nth[OF i])
  qed
  have c4: "\<forall>i<length png_files. \<exists>stem. snd (plan ! i) = stem @ ''.png''"
  proof (intro allI impI)
    fix i assume i: "i < length png_files"
    have e: "snd (plan ! i) =
       (prefix @ basename @ ''_'' @ zfill w (str_int (start_index + int i)) @ suffix) @ ''.png''"
      by (simp only: nth[OF i] snd_conv append_assoc)
    show "\<exists>stem. snd (plan ! i) = stem @ ''.png''"
      by (rule exI[where x = "prefix @ basename @ ''_'' @ zfill w (str_int (start_index + int i)) @ suffix"])
         (rule e)
  qed
  have c5: "distinct (map snd plan)" unfolding plan_def by (rule plan_loop_targets_distinct)
  show ?thesis by (rule exI[of _ plan]) (intro conjI eq len c3 c4 c5)
qed

text \<open>
  The theorem at two files, start index 9 and automatic width: the largest index is 10, the
  width is 2, and the names are \<open>pshot_09s.png\<close> and \<open>pshot_10s.png\<close>. Beside it, the plan for
  a fixed width of 4, and for a negative index at width 3.
\<close>

theorem plan_renames_spec_witness:
  "[Path ''d'' ''b.png'', Path ''d'' ''a.png''] \<noteq> [] \<and> strip ''shot'' \<noteq> [] \<and>
   plan_renames [Path ''d'' ''b.png'', Path ''d'' ''a.png''] ''shot'' 9 0 ''p'' ''s''
     = Inr [(Path ''d'' ''b.png'', ''pshot_09s.png''), (Path ''d'' ''a.png'', ''pshot_10s.png'')] \<and>
   plan_renames [Path ''d'' ''a.png''] ''shot'' 7 4 [] []
     = Inr [(Path ''d'' ''a.png'', ''shot_0007.png'')] \<and>
   plan_renames [Path ''d'' ''a.png''] ''shot'' (- 1) 3 [] []
     = Inr [(Path ''d'' ''a.png'', ''shot_-01.png'')]"
proof -
  let ?b = "Path ''d'' ''b.png''" and ?a = "Path ''d'' ''a.png''"
  have h0: "[?b, ?a] \<noteq> []" by simp
  have h: "strip ''shot'' \<noteq> []" by (simp add: strip_def is_space_def)
  have n0: "''p'' @ ''shot'' @ ''_'' @
      zero_pad (if (0::int) \<noteq> 0 then 0 else int (decimal_digits (9 + int (length [?b, ?a]) - 1)))
               (9 + int 0) @ ''s'' @ ''.png'' = ''pshot_09s.png''" by code_simp
  have n1: "''p'' @ ''shot'' @ ''_'' @
      zero_pad (if (0::int) \<noteq> 0 then 0 else int (decimal_digits (9 + int (length [?b, ?a]) - 1)))
               (9 + int 1) @ ''s'' @ ''.png'' = ''pshot_10s.png''" by code_simp
  from plan_renames_spec[OF h0 h, where start_index = 9 and zero_padding = 0
      and prefix = "''p''" and suffix = "''s''"]
  obtain plan where eq: "plan_renames [?b, ?a] ''shot'' 9 0 ''p'' ''s'' = Inr plan"
    and len: "length plan = length [?b, ?a]"
    and nth: "\<forall>i<length [?b, ?a]. plan ! i =
            ([?b, ?a] ! i,
             ''p'' @ ''shot'' @ ''_'' @
             zero_pad (if (0::int) \<noteq> 0 then 0 else int (decimal_digits (9 + int (length [?b, ?a]) - 1)))
                      (9 + int i) @ ''s'' @ ''.png'')"
    by (elim exE conjE)
  have l0: "0 < length [?b, ?a]" and l1: "1 < length [?b, ?a]" by simp_all
  have p0: "plan ! 0 = (?b, ''pshot_09s.png'')"
    using nth[rule_format, OF l0] unfolding n0 by (simp only: nth_Cons_0)
  have p1: "plan ! 1 = (?a, ''pshot_10s.png'')"
    using nth[rule_format, OF l1] unfolding n1 by (simp only: nth_Cons_Suc nth_Cons_0 One_nat_def)
  from len obtain x y where xy: "plan = [x, y]"
    by (cases plan; cases "tl plan") auto
  from p0 p1 have "plan = [(?b, ''pshot_09s.png''), (?a, ''pshot_10s.png'')]"
    unfolding xy by (simp only: nth_Cons_0 nth_Cons_Suc One_nat_def)
  with eq have e1: "plan_renames [?b, ?a] ''shot'' 9 0 ''p'' ''s''
     = Inr [(?b, ''pshot_09s.png''), (?a, ''pshot_10s.png'')]" by (simp only:)
  have e2: "plan_renames [?a] ''shot'' 7 4 [] [] = Inr [(?a, ''shot_0007.png'')]" by code_simp
  have e3: "plan_renames [?a] ''shot'' (- 1) 3 [] [] = Inr [(?a, ''shot_-01.png'')]" by code_simp
  show ?thesis by (intro conjI h0 h e1 e2 e3)
qed

text \<open>
  Claim C7, as stated, fails: the basename check comes first, so an empty file list with a blank
  basename raises \<open>ValueError\<close> instead of returning the empty plan.
\<close>

theorem plan_empty_blank_counterexample:
  "plan_renames [] '' '' 1 0 [] [] \<noteq> Inr []"
  by (simp add: plan_renames_def strip_def is_space_def)

text \<open>
  Claim C7, amended. With a basename that is not blank, \<open>plan_renames\<close> on the empty file list
  returns the empty plan, whatever the other parameters; with a basename that is empty after
  trimming whitespace it fails with \<open>ValueError\<close>, whatever the file list.
\<close>

theorem plan_renames_empty_or_blank:
  "(strip basename \<noteq> [] \<longrightarrow> plan_renames [] basename start_index zero_padding prefix suffix = Inr [])
   \<and> (strip basename = [] \<longrightarrow> plan_renames png_files basename start_index zero_padding prefix suffix = Inl ValueError)"
  by (simp add: plan_renames_def)

theorem plan_renames_empty_or_blank_witness:
  "strip ''seq'' \<noteq> [] \<and> plan_renames [] ''seq'' 1 0 [] [] = Inr [] \<and>
   strip ''  '' = [] \<and> plan_renames [Path ''d'' ''a.png''] ''  '' 1 0 [] [] = Inl ValueError \<and>
   strip [CHR 0xA0, CHR 0x85] = [] \<and> plan_renames [] [CHR 0xA0, CHR 0x85] 1 0 [] [] = Inl ValueError"
proof -
  have a: "strip ''seq'' \<noteq> []" by (simp add: strip_def is_space_def)
  have b: "strip ''  '' = []" by (simp add: strip_def is_space_def)
  have c: "strip [CHR 0xA0, CHR 0x85] = []" by (simp add: strip_def is_space_def)
  from plan_renames_empty_or_blank[of "''seq''" 1 0 "[]" "[]"] a
  have 1: "plan_renames [] ''seq'' 1 0 [] [] = Inr []" by simp
  from plan_renames_empty_or_blank[of "''  ''" 1 0 "[]" "[]" "[Path ''d'' ''a.png'']"] b
  have 2: "plan_renames [Path ''d'' ''a.png''] ''  '' 1 0 [] [] = Inl ValueError" by simp
  from plan_renames_empty_or_blank[of "[CHR 0xA0, CHR 0x85]" 1 0 "[]" "[]" "[]"] c
  have 3: "plan_renames [] [CHR 0xA0, CHR 0x85] 1 0 [] [] = Inl ValueError" by simp
  show ?thesis by (intro conjI a b c 1 2 3)
qed

section \<open>Properties of \<open>detect_collisions\<close>\<close>

lemma DuplicateTarget_inj [simp]: "DuplicateTarget a = DuplicateTarget b \<longleftrightarrow> a = b"
  by (simp add: DuplicateTarget_def)

lemma TargetExists_inj [simp]: "TargetExists a = TargetExists b \<longleftrightarrow> a = b"
  by (simp add: TargetExists_def)

lemma Dup_neq_Exists [simp]: "DuplicateTarget a \<noteq> TargetExists b" "TargetExists b \<noteq> DuplicateTarget a"
  by (simp_all add: DuplicateTarget_def TargetExists_def)

lemma detect_loop_snd: "snd (detect_loop plan folder acc seen fs) = fs"
  by (induction plan arbitrary: acc seen) (auto simp: path_exists_def Let_def)

lemma detect_loop_step:
  "fst (detect_loop (e # rest) folder acc seen fs) =
   fst (detect_loop rest folder (acc @ entry_collisions seen fs folder e) (insert (snd e) seen) fs)"
  by (cases e) (simp add: entry_collisions_def path_exists_def Let_def)

lemma detect_loop_fst:
  "fst (detect_loop plan folder acc seen fs) =
   acc @ concat (map (\<lambda>i. entry_collisions (seen \<union> set (map snd (take i plan))) fs folder (plan ! i))
                     [0..<length plan])"
proof (induction plan arbitrary: acc seen)
  case Nil
  then show ?case by simp
next
  case (Cons e rest)
  have "fst (detect_loop (e # rest) folder acc seen fs) =
        (acc @ entry_collisions seen fs folder e) @
        concat (map (\<lambda>i. entry_collisions (insert (snd e) seen \<union> set (map snd (take i rest))) fs folder (rest ! i))
                    [0..<length rest])"
    unfolding detect_loop_step by (rule Cons.IH)
  also have "\<dots> = acc @ concat (map (\<lambda>i. entry_collisions (seen \<union> set (map snd (take i (e # rest)))) fs folder ((e # rest) ! i))
                     [0..<length (e # rest)])"
    by (simp add: map_upt_Suc del: upt_Suc)
  finally show ?case .
qed

lemma count_list_append: "count_list (xs @ ys) a = count_list xs a + count_list ys a"
  by (induction xs) simp_all

lemma detect_loop_count_dup:
  "count_list (fst (detect_loop plan folder acc seen fs)) (DuplicateTarget t) =
   count_list acc (DuplicateTarget t) +
   (if t \<in> seen then length (filter (\<lambda>e. snd e = t) plan)
    else length (filter (\<lambda>e. snd e = t) plan) - 1)"
proof (induction plan arbitrary: acc seen)
  case Nil
  then show ?case by simp
next
  case (Cons e rest)
  show ?case
    unfolding detect_loop_step Cons.IH
    by (auto simp: entry_collisions_def count_list_append)
qed

text \<open>
  Claim C6. \<open>detect_collisions\<close> emits the collisions in plan order: the result is the
  concatenation, entry by entry, of what each entry contributes given the targets seen before
  it. Two sources with the same target give exactly one \<open>DuplicateTarget\<close> for that name; a
  target that exists on disk and is not the entry's own source gives \<open>TargetExists\<close>; an entry
  whose target is its own source file gives no collision; and the file system comes back
  unchanged.
\<close>

theorem detect_collisions_spec:
  "fst (detect_collisions plan folder fs) =
     concat (map (\<lambda>i. entry_collisions (set (map snd (take i plan))) fs folder (plan ! i))
                 [0..<length plan])
   \<and> count_list (fst (detect_collisions [(a, x), (b, x)] folder fs)) (DuplicateTarget x) = 1
   \<and> (files fs (Path folder x) \<noteq> None \<longrightarrow> old \<noteq> Path folder x \<longrightarrow>
        fst (detect_collisions [(old, x)] folder fs) = [TargetExists x])
   \<and> fst (detect_collisions [(Path folder x, x)] folder fs) = []
   \<and> snd (detect_collisions plan folder fs) = fs"
proof (intro conjI impI)
  show "fst (detect_collisions plan folder fs) =
     concat (map (\<lambda>i. entry_collisions (set (map snd (take i plan))) fs folder (plan ! i))
                 [0..<length plan])"
    unfolding detect_collisions_def detect_loop_fst by simp
  show "count_list (fst (detect_collisions [(a, x), (b, x)] folder fs)) (DuplicateTarget x) = 1"
    unfolding detect_collisions_def detect_loop_count_dup by simp
  show "fst (detect_collisions [(Path folder x, x)] folder fs) = []"
    by (simp add: detect_collisions_def path_exists_def)
  show "snd (detect_collisions plan folder fs) = fs"
    unfolding detect_collisions_def by (rule detect_loop_snd)
next
  assume "files fs (Path folder x) \<noteq> None" "old \<noteq> Path folder x"
  then show "fst (detect_collisions [(old, x)] folder fs) = [TargetExists x]"
    by (auto simp add: detect_collisions_def path_exists_def)
qed

theorem detect_collisions_spec_witness:
  "files fs_demo (Path ''d'' ''x.png'') \<noteq> None \<and> Path ''d'' ''a.png'' \<noteq> Path ''d'' ''x.png'' \<and>
   fst (detect_collisions [(Path ''d'' ''a.png'', ''x.png'')] ''d'' fs_demo) = [TargetExists ''x.png''] \<and>
   fst (detect_collisions [(Path ''d'' ''x.png'', ''x.png'')] ''d'' fs_demo) = [] \<and>
   snd (detect_collisions [(Path ''d'' ''a.png'', ''x.png'')] ''d'' fs_demo) = fs_demo"
proof -
  have h1: "files fs_demo (Path ''d'' ''x.png'') \<noteq> None" by (simp add: fs_demo_def)
  have h2: "Path ''d'' ''a.png'' \<noteq> Path ''d'' ''x.png''" by simp
  from detect_collisions_spec[of "[(Path ''d'' ''a.png'', ''x.png'')]" "''d''" fs_demo
      "Path ''d'' ''a.png''" "''x.png''" "Path ''d'' ''b.png''" "Path ''d'' ''a.png''"] h1 h2
  show ?thesis by blast
qed

text \<open>
  Claim C9. When \<open>n \<ge> 2\<close> entries of a plan share a target name, \<open>detect_collisions\<close> returns
  exactly \<open>n - 1\<close> \<open>DuplicateTarget\<close> collisions for that name; and one entry can contribute both
  a \<open>DuplicateTarget\<close> and a \<open>TargetExists\<close> collision, as the second of two entries with the
  same target does when that target exists on disk.
\<close>

theorem detect_duplicate_count:
  assumes "2 \<le> length (filter (\<lambda>e. snd e = t) plan)"
  shows "count_list (fst (detect_collisions plan folder fs)) (DuplicateTarget t) =
           length (filter (\<lambda>e. snd e = t) plan) - 1
       \<and> (files fs (Path folder t) \<noteq> None \<longrightarrow> a \<noteq> Path folder t \<longrightarrow> b \<noteq> Path folder t \<longrightarrow>
            fst (detect_collisions [(a, t), (b, t)] folder fs) =
              [TargetExists t, DuplicateTarget t, TargetExists t])"
proof (intro conjI impI)
  show "count_list (fst (detect_collisions plan folder fs)) (DuplicateTarget t) =
           length (filter (\<lambda>e. snd e = t) plan) - 1"
    unfolding detect_collisions_def detect_loop_count_dup by simp
next
  assume "files fs (Path folder t) \<noteq> None" "a \<noteq> Path folder t" "b \<noteq> Path folder t"
  then show "fst (detect_collisions [(a, t), (b, t)] folder fs) =
              [TargetExists t, DuplicateTarget t, TargetExists t]"
    by (auto simp add: detect_collisions_def path_exists_def)
qed

theorem detect_duplicate_count_witness:
  "2 \<le> length (filter (\<lambda>e. snd e = ''x.png'')
           [(Path ''d'' ''a.png'', ''x.png''), (Path ''d'' ''b.png'', ''x.png''), (Path ''d'' ''c.png'', ''x.png'')]) \<and>
   count_list (fst (detect_collisions
           [(Path ''d'' ''a.png'', ''x.png''), (Path ''d'' ''b.png'', ''x.png''), (Path ''d'' ''c.png'', ''x.png'')]
           ''d'' fs_demo)) (DuplicateTarget ''x.png'') = 2 \<and>
   files fs_demo (Path ''d'' ''x.png'') \<noteq> None \<and>
   fst (detect_collisions [(Path ''d'' ''a.png'', ''x.png''), (Path ''d'' ''b.png'', ''x.png'')] ''d'' fs_demo) =
     [TargetExists ''x.png'', DuplicateTarget ''x.png'', TargetExists ''x.png'']"
proof -
  have h: "2 \<le> length (filter (\<lambda>e. snd e = ''x.png'')
           [(Path ''d'' ''a.png'', ''x.png''), (Path ''d'' ''b.png'', ''x.png''), (Path ''d'' ''c.png'', ''x.png'')])"
    by simp
  from detect_duplicate_count[OF h, of "''d''" fs_demo "Path ''d'' ''a.png''" "Path ''d'' ''b.png''"]
  show ?thesis by (simp add: fs_demo_def)
qed

section \<open>Properties of \<open>two_phase_rename\<close>\<close>

lemma os_rename_ok:
  "os_rename src dst fs = (None, fs') \<Longrightarrow>
     files fs' = (files fs)(src := None, dst := files fs src) \<and> files fs src \<noteq> None \<and>
     locked fs' = locked fs \<and>
     journal fs' = journal fs @ [Renamed src dst (files fs dst \<noteq> None \<and> dst \<noteq> src)]"
  by (auto simp: os_rename_def split: option.splits if_splits)

lemma phase1_targets:
  "phase1 renames folder clock acc fs = (None, temps, fs1) \<Longrightarrow>
     map snd temps = map snd acc @ map snd (filter (\<lambda>e. name (fst e) \<noteq> snd e) renames)"
proof (induction renames folder clock acc fs rule: phase1.induct)
  case (1 folder clock temp_names fs)
  then show ?case by simp
next
  case (2 old_path new_name rest folder clock temp_names fs)
  show ?case
  proof (cases "name old_path \<noteq> new_name")
    case False
    with 2 show ?thesis by simp
  next
    case True
    let ?tp = "Path folder (temp_name_of (clock 0) (name old_path))"
    obtain r fs' where r: "os_rename old_path ?tp fs = (r, fs')" by (cases "os_rename old_path ?tp fs")
    show ?thesis
    proof (cases r)
      case None
      with True r "2.prems"
      have "phase1 rest folder (\<lambda>k. clock (Suc k)) (temp_names @ [(?tp, new_name)]) fs' = (None, temps, fs1)"
        by (simp add: Let_def)
      from "2.IH"(1)[OF True refl refl _ _ this, of r] None r True show ?thesis by simp
    next
      case (Some e)
      with True r "2.prems" show ?thesis by (simp add: Let_def)
    qed
  qed
qed

lemma phase2_finals:
  "phase2 temps folder acc fs = (None, final, fs2) \<Longrightarrow>
     map snd final = map snd acc @ map (\<lambda>e. Path folder (snd e)) temps"
proof (induction temps folder acc fs rule: phase2.induct)
  case (1 folder final_renames fs)
  then show ?case by simp
next
  case (2 temp_path new_name rest folder final_renames fs)
  let ?np = "Path folder new_name"
  obtain r fs' where r: "os_rename temp_path ?np fs = (r, fs')" by (cases "os_rename temp_path ?np fs")
  show ?case
  proof (cases r)
    case None
    with r "2.prems"
    have "phase2 rest folder (final_renames @ [(Path folder (original_name_of (name temp_path)), ?np)]) fs' = (None, final, fs2)"
      by (simp add: Let_def)
    from "2.IH"[OF refl _ _ refl refl this, of r] None r show ?thesis by simp
  next
    case (Some e)
    with r "2.prems" show ?thesis by (simp add: Let_def)
  qed
qed

lemma two_phase_rename_pairs:
  assumes "two_phase_rename renames folder clock fs = (Inr final_renames, fs')"
  shows "map snd final_renames =
           map (\<lambda>e. Path folder (snd e)) (filter (\<lambda>e. name (fst e) \<noteq> snd e) renames)
       \<and> length final_renames = length (filter (\<lambda>e. name (fst e) \<noteq> snd e) renames)"
proof -
  obtain r1 temps fs1 where p1: "phase1 renames folder clock [] fs = (r1, temps, fs1)"
    by (cases "phase1 renames folder clock [] fs") auto
  obtain r2 fin fs2 where p2: "phase2 temps folder [] fs1 = (r2, fin, fs2)"
    by (cases "phase2 temps folder [] fs1") auto
  from assms p1 have r1: "r1 = None" by (cases r1) (auto simp: two_phase_rename_def)
  from assms p1 p2 r1 have r2: "r2 = None" by (cases r2) (auto simp: two_phase_rename_def)
  from assms p1 p2 r1 r2 have fin: "fin = final_renames" by (simp add: two_phase_rename_def)
  from phase1_targets[OF p1[unfolded r1]]
  have t: "map snd temps = map snd (filter (\<lambda>e. name (fst e) \<noteq> snd e) renames)" by simp
  from phase2_finals[OF p2[unfolded r2]] have f: "map snd fin = map (\<lambda>e. Path folder (snd e)) temps" by simp
  have "map (\<lambda>e. Path folder (snd e)) temps = map (Path folder) (map snd temps)" by simp
  also have "\<dots> = map (Path folder) (map snd (filter (\<lambda>e. name (fst e) \<noteq> snd e) renames))"
    by (simp only: t)
  finally have m: "map snd final_renames =
           map (\<lambda>e. Path folder (snd e)) (filter (\<lambda>e. name (fst e) \<noteq> snd e) renames)"
    using f fin by simp
  from arg_cong[OF m, of length] have "length final_renames = length (filter (\<lambda>e. name (fst e) \<noteq> snd e) renames)"
    by simp
  with m show ?thesis by simp
qed

lemma os_rename_fail: "os_rename src dst fs = (Some e, fs') \<Longrightarrow> fs' = fs"
  by (auto simp: os_rename_def split: option.splits if_splits)

lemma clobbered_append: "clobbered (xs @ ys) = clobbered xs @ clobbered ys"
  by (induction xs rule: clobbered.induct) simp_all

lemma detect_loop_empty:
  "fst (detect_loop plan folder acc seen fs) = [] \<Longrightarrow>
     acc = [] \<and> distinct (map snd plan) \<and>
     (\<forall>e\<in>set plan. snd e \<notin> seen \<and>
        (files fs (Path folder (snd e)) \<noteq> None \<longrightarrow> Path folder (snd e) = fst e))"
proof (induction plan arbitrary: acc seen)
  case Nil
  then show ?case by simp
next
  case (Cons e rest)
  from Cons.prems have "fst (detect_loop rest folder (acc @ entry_collisions seen fs folder e) (insert (snd e) seen) fs) = []"
    by (simp only: detect_loop_step)
  from Cons.IH[OF this]
  have a: "acc @ entry_collisions seen fs folder e = []"
    and d: "distinct (map snd rest)"
    and r: "\<forall>e'\<in>set rest. snd e' \<notin> insert (snd e) seen \<and>
        (files fs (Path folder (snd e')) \<noteq> None \<longrightarrow> Path folder (snd e') = fst e')"
    by blast+
  from a have acc: "acc = []" and ec: "entry_collisions seen fs folder e = []" by simp_all
  from ec have e1: "snd e \<notin> seen"
    and e2: "files fs (Path folder (snd e)) \<noteq> None \<longrightarrow> Path folder (snd e) = fst e"
    by (auto simp: entry_collisions_def split: if_splits)
  from r have "snd e \<notin> snd ` set rest" by force
  with d have "distinct (map snd (e # rest))" by simp
  with acc e1 e2 r show ?case by auto
qed

lemma phase1_inv:
  "phase1 renames folder clock acc fs = (None, temps, fs1) \<Longrightarrow>
     set acc \<subseteq> set temps \<and>
     (\<forall>p. files fs1 p \<noteq> None \<longrightarrow> files fs p \<noteq> None \<or> p \<in> fst ` set temps)"
proof (induction renames folder clock acc fs rule: phase1.induct)
  case (1 folder clock temp_names fs)
  then show ?case by simp
next
  case (2 old_path new_name rest folder clock temp_names fs)
  show ?case
  proof (cases "name old_path \<noteq> new_name")
    case False
    with 2 show ?thesis by simp
  next
    case True
    let ?tp = "Path folder (temp_name_of (clock 0) (name old_path))"
    obtain r fs' where r: "os_rename old_path ?tp fs = (r, fs')" by (cases "os_rename old_path ?tp fs")
    show ?thesis
    proof (cases r)
      case None
      with True r "2.prems"
      have "phase1 rest folder (\<lambda>k. clock (Suc k)) (temp_names @ [(?tp, new_name)]) fs' = (None, temps, fs1)"
        by (simp add: Let_def)
      from "2.IH"(1)[OF True refl refl _ _ this, of r] None r
      have sub: "set (temp_names @ [(?tp, new_name)]) \<subseteq> set temps"
        and dom: "\<forall>p. files fs1 p \<noteq> None \<longrightarrow> files fs' p \<noteq> None \<or> p \<in> fst ` set temps"
        by simp_all
      from os_rename_ok[OF r[unfolded None]]
      have f': "files fs' = (files fs)(old_path := None, ?tp := files fs old_path)" by simp
      from sub have tp: "?tp \<in> fst ` set temps" by force
      have "\<forall>p. files fs1 p \<noteq> None \<longrightarrow> files fs p \<noteq> None \<or> p \<in> fst ` set temps"
      proof (intro allI impI)
        fix p assume "files fs1 p \<noteq> None"
        with dom have "files fs' p \<noteq> None \<or> p \<in> fst ` set temps" by simp
        then show "files fs p \<noteq> None \<or> p \<in> fst ` set temps"
          using tp by (auto simp: f' split: if_splits)
      qed
      with sub show ?thesis by simp
    next
      case (Some e)
      with True r "2.prems" show ?thesis by (simp add: Let_def)
    qed
  qed
qed

lemma phase2_no_clobber:
  "distinct (map snd temps) \<Longrightarrow>
   \<forall>e\<in>set temps. files fs (Path folder (snd e)) \<noteq> None \<longrightarrow> Path folder (snd e) = fst e \<Longrightarrow>
   clobbered (journal (snd (snd (phase2 temps folder acc fs)))) = clobbered (journal fs)"
proof (induction temps folder acc fs rule: phase2.induct)
  case (1 folder final_renames fs)
  then show ?case by simp
next
  case (2 temp_path new_name rest folder final_renames fs)
  let ?np = "Path folder new_name"
  obtain r fs' where r: "os_rename temp_path ?np fs = (r, fs')" by (cases "os_rename temp_path ?np fs")
  show ?case
  proof (cases r)
    case (Some e)
    with r os_rename_fail[of temp_path ?np fs e fs'] show ?thesis by (simp add: Let_def)
  next
    case None
    note ok = os_rename_ok[OF r[unfolded None]]
    from "2.prems"(2) have own: "files fs ?np \<noteq> None \<longrightarrow> ?np = temp_path" by simp
    from ok own have j: "clobbered (journal fs') = clobbered (journal fs)"
      by (auto simp: clobbered_append)
    from "2.prems"(1) have d: "distinct (map snd rest)" and nn: "new_name \<notin> snd ` set rest" by auto
    have inv: "\<forall>e\<in>set rest. files fs' (Path folder (snd e)) \<noteq> None \<longrightarrow> Path folder (snd e) = fst e"
    proof (intro ballI impI)
      fix e assume e: "e \<in> set rest" and ex: "files fs' (Path folder (snd e)) \<noteq> None"
      from e nn have ne: "snd e \<noteq> new_name" by force
      with ex ok have "files fs (Path folder (snd e)) \<noteq> None" by (auto split: if_splits)
      with "2.prems"(2) e show "Path folder (snd e) = fst e" by simp
    qed
    from "2.IH"[OF refl _ _ refl refl d inv, of r] None r j show ?thesis by (simp add: Let_def)
  qed
qed


text \<open>
  Claim C1 fails on the code. One file \<open>d/a.png\<close> is renamed to \<open>shot_1.png\<close>, the ledger is
  written and undone. The temporary name is \<open>temp_20240115_103000_000000_a.png\<close>, and
  \<open>split('_', 3)[-1]\<close> of it is \<open>000000_a.png\<close>, not \<open>a.png\<close>: the ledger records that as the
  original path, and undo moves the file there. The ledger itself is removed.
\<close>

theorem round_trip_loses_original_path:
  "fst (execute_write_undo [(Path ''d'' ''a.png'', ''shot_1.png'')] ''d'' clock_demo
          log_demo ''2024-01-15T10:30:00'' fs_one)
     = Inr [(Path ''d'' ''shot_1.png'', Path ''d'' ''000000_a.png'')]
   \<and> files (snd (execute_write_undo [(Path ''d'' ''a.png'', ''shot_1.png'')] ''d'' clock_demo
          log_demo ''2024-01-15T10:30:00'' fs_one)) (Path ''d'' ''a.png'') = None
   \<and> files (snd (execute_write_undo [(Path ''d'' ''a.png'', ''shot_1.png'')] ''d'' clock_demo
          log_demo ''2024-01-15T10:30:00'' fs_one)) (Path ''d'' ''000000_a.png'') = Some (Blob 1)
   \<and> files (snd (execute_write_undo [(Path ''d'' ''a.png'', ''shot_1.png'')] ''d'' clock_demo
          log_demo ''2024-01-15T10:30:00'' fs_one)) log_demo = None"
  by code_simp

text \<open>
  Claim C2 fails on the code. Two files are staged, the first commit is refused by the
  operating system, and the rollback runs before any file is committed. It renames each
  temporary file to \<open>split('_', 3)[-1]\<close> of its name, which keeps the microsecond field:
  the files end at \<open>000000_a.png\<close> and \<open>000001_b.png\<close>, and nothing is left at \<open>a.png\<close> and
  \<open>b.png\<close>.
\<close>

theorem rollback_misses_original_paths:
  "fst (two_phase_rename plan_ok ''d'' clock_demo fs_two_locked) = Inl PermissionError
   \<and> map (files (snd (two_phase_rename plan_ok ''d'' clock_demo fs_two_locked)))
        [Path ''d'' ''a.png'', Path ''d'' ''b.png'',
         Path ''d'' ''000000_a.png'', Path ''d'' ''000001_b.png'',
         Path ''d'' ''shot_1.png'', Path ''d'' ''shot_2.png'']
     = [None, None, Some (Blob 1), Some (Blob 2), None, None]"
  by code_simp

text \<open>
  Claim C3, as stated, fails: an entry whose file already has its target name is skipped in
  phase 1 and never reaches the result. A plan of one such entry returns the empty list.
\<close>

theorem noop_entries_omitted:
  "fst (two_phase_rename [(Path ''d'' ''a.png'', ''a.png'')] ''d'' clock_demo fs_one) = Inr []"
  by code_simp


text \<open>
  Claim C3, amended. When \<open>two_phase_rename\<close> succeeds it returns one pair for every plan entry
  whose current file name differs from its target name, in plan order, and the final path of
  the pair is \<open>folder / target\<close>; entries that are already named correctly are left out.
\<close>

theorem two_phase_rename_result:
  assumes "fst (two_phase_rename renames folder clock fs) = Inr final_renames"
  shows "map snd final_renames =
           map (\<lambda>e. Path folder (snd e)) (filter (\<lambda>e. name (fst e) \<noteq> snd e) renames)
       \<and> length final_renames = length (filter (\<lambda>e. name (fst e) \<noteq> snd e) renames)"
proof -
  have "two_phase_rename renames folder clock fs =
          (Inr final_renames, snd (two_phase_rename renames folder clock fs))"
    using assms by (metis prod.collapse)
  then show ?thesis by (rule two_phase_rename_pairs)
qed


theorem two_phase_rename_result_witness:
  "fst (two_phase_rename plan_mixed ''d'' clock_demo fs_two)
     = Inr [(Path ''d'' ''000000_a.png'', Path ''d'' ''shot_1.png'')]
   \<and> map snd [(Path ''d'' ''000000_a.png'', Path ''d'' ''shot_1.png'')]
     = map (\<lambda>e. Path ''d'' (snd e)) (filter (\<lambda>e. name (fst e) \<noteq> snd e) plan_mixed)
   \<and> length [(Path ''d'' ''000000_a.png'', Path ''d'' ''shot_1.png'')]
     = length (filter (\<lambda>e. name (fst e) \<noteq> snd e) plan_mixed)"
proof -
  have h: "fst (two_phase_rename plan_mixed ''d'' clock_demo fs_two)
     = Inr [(Path ''d'' ''000000_a.png'', Path ''d'' ''shot_1.png'')]" by code_simp
  from two_phase_rename_result[OF h] h show ?thesis by blast
qed


text \<open>
  Claim C4, as stated, fails. The temporary names are built from the clock, and nothing keeps
  a target name from being one of them: in \<open>plan_stale\<close> the first target is the name under
  which the second file is staged. \<open>detect_collisions\<close> reports nothing, phase 1 replaces no
  file, and the first commit replaces the staged copy of \<open>a.png\<close>.
\<close>

theorem stale_temp_name_clobbers:
  "fst (detect_collisions plan_stale ''d'' fs_two) = []
   \<and> fst (phase1 plan_stale ''d'' clock_demo [] fs_two) = None
   \<and> clobbered (journal (snd (snd (phase1 plan_stale ''d'' clock_demo [] fs_two)))) = []
   \<and> clobbered (journal (snd (snd (phase2 (fst (snd (phase1 plan_stale ''d'' clock_demo [] fs_two))) ''d'' []
                                       (snd (snd (phase1 plan_stale ''d'' clock_demo [] fs_two)))))))
       = [Path ''d'' ''temp_20240115_103000_000001_a.png'']"
  by code_simp


text \<open>
  Claim C4, amended. For a plan on which \<open>detect_collisions\<close> reports nothing, and whose staging
  succeeded with no target path equal to the temporary path of another entry, no rename of
  the commit phase replaces an existing file: the commit phase adds nothing to the list of
  replaced destinations. (A target equal to the entry's own temporary path is renamed onto
  itself.)
\<close>

theorem commit_phase_no_clobber:
  assumes det: "fst (detect_collisions renames folder fs) = []"
    and p1: "phase1 renames folder clock [] fs = (None, temp_names, fs1)"
    and fresh: "\<forall>e\<in>set temp_names. \<forall>e'\<in>set temp_names.
                  Path folder (snd e) = fst e' \<longrightarrow> fst e' = fst e"
  shows "clobbered (journal (snd (snd (phase2 temp_names folder [] fs1)))) = clobbered (journal fs1)"
proof -
  from det have de: "distinct (map snd renames)"
    and own: "\<forall>e\<in>set renames. files fs (Path folder (snd e)) \<noteq> None \<longrightarrow> Path folder (snd e) = fst e"
    using detect_loop_empty[of renames folder "[]" "{}" fs] by (simp_all add: detect_collisions_def)
  from phase1_targets[OF p1]
  have t: "map snd temp_names = map snd (filter (\<lambda>e. name (fst e) \<noteq> snd e) renames)" by simp
  from de have d: "distinct (map snd temp_names)" unfolding t by (rule distinct_map_filter)
  from phase1_inv[OF p1]
  have dom: "\<forall>p. files fs1 p \<noteq> None \<longrightarrow> files fs p \<noteq> None \<or> p \<in> fst ` set temp_names" by simp
  have inv: "\<forall>e\<in>set temp_names. files fs1 (Path folder (snd e)) \<noteq> None \<longrightarrow> Path folder (snd e) = fst e"
  proof (intro ballI impI)
    fix e assume e: "e \<in> set temp_names" and ex: "files fs1 (Path folder (snd e)) \<noteq> None"
    from e have "snd e \<in> set (map snd temp_names)" by simp
    then have "snd e \<in> set (map snd (filter (\<lambda>e. name (fst e) \<noteq> snd e) renames))" by (simp only: t)
    then obtain e0 where e0: "e0 \<in> set renames" "name (fst e0) \<noteq> snd e0" "snd e0 = snd e" by auto
    have notfs: "files fs (Path folder (snd e)) = None"
    proof (rule ccontr)
      assume "files fs (Path folder (snd e)) \<noteq> None"
      with own e0 have "Path folder (snd e0) = fst e0" by simp
      then have "name (fst e0) = snd e0" by (metis path.sel(2))
      with e0 show False by simp
    qed
    with dom ex have "Path folder (snd e) \<in> fst ` set temp_names" by blast
    then obtain e' where "e' \<in> set temp_names" "Path folder (snd e) = fst e'" by auto
    with fresh e show "Path folder (snd e) = fst e" by metis
  qed
  from phase2_no_clobber[OF d inv] show ?thesis .
qed

theorem commit_phase_no_clobber_witness:
  "fst (detect_collisions plan_ok ''d'' fs_two) = []
   \<and> fst (phase1 plan_ok ''d'' clock_demo [] fs_two) = None
   \<and> clobbered (journal (snd (snd (phase2 (fst (snd (phase1 plan_ok ''d'' clock_demo [] fs_two))) ''d'' []
                                       (snd (snd (phase1 plan_ok ''d'' clock_demo [] fs_two)))))))
       = clobbered (journal (snd (snd (phase1 plan_ok ''d'' clock_demo [] fs_two))))"
proof -
  let ?p1 = "phase1 plan_ok ''d'' clock_demo [] fs_two"
  have h1: "fst (detect_collisions plan_ok ''d'' fs_two) = []" by code_simp
  have h2: "fst ?p1 = None" by code_simp
  then have h2': "?p1 = (None, fst (snd ?p1), snd (snd ?p1))" by (metis prod.collapse)
  have h3: "\<forall>e\<in>set (fst (snd ?p1)). \<forall>e'\<in>set (fst (snd ?p1)).
              Path ''d'' (snd e) = fst e' \<longrightarrow> fst e' = fst e" by code_simp
  from commit_phase_no_clobber[OF h1 h2' h3] h1 h2 show ?thesis by blast
qed


section \<open>Properties of \<open>undo_from_log\<close>\<close>

lemma removed_append: "removed (xs @ ys) = removed xs @ removed ys"
  by (induction xs rule: removed.induct) simp_all

lemma undone_records_Nil: "undone_records [] m = []"
  by (simp add: undone_records_def)

lemma filter_upt_Suc:
  "filter P [0..<Suc n] = (if P 0 then [0] else []) @ map Suc (filter (\<lambda>i. P (Suc i)) [0..<n])"
proof -
  have "[0..<Suc n] = 0 # map Suc [0..<n]" by (simp add: upt_conv_Cons map_Suc_upt del: upt_Suc)
  then show ?thesis by (simp add: filter_map comp_def del: upt_Suc)
qed

lemma undone_records_Cons:
  "undone_records (r # rest) m =
     (if m (fst (snd r)) \<noteq> None then [(fst (snd r), fst r)] else []) @
     undone_records rest (undo_step r m)"
  unfolding undone_records_def
  by (simp add: filter_upt_Suc files_before_def comp_def del: upt_Suc)

lemma undo_step_missing: "m (fst (snd r)) = None \<Longrightarrow> undo_step r m = m"
  by (simp add: undo_step_def)

lemma undo_loop_spec:
  "undo_loop rows acc fs = (r, undone, fs') \<Longrightarrow>
     removed (journal fs') = removed (journal fs) \<and>
     (\<forall>p. p \<notin> fst ` set rows \<longrightarrow> p \<notin> (fst \<circ> snd) ` set rows \<longrightarrow> files fs' p = files fs p) \<and>
     (r = None \<longrightarrow> undone = acc @ undone_records rows (files fs))"
proof (induction rows arbitrary: acc fs)
  case Nil
  then show ?case by (simp add: undone_records_Nil)
next
  case (Cons row rest)
  obtain old_path new_path ts where row: "row = (old_path, new_path, ts)" by (cases row) auto
  show ?case
  proof (cases "files fs new_path = None")
    case True
    with Cons.prems row have "undo_loop rest acc fs = (r, undone, fs')"
      by (simp add: path_exists_def)
    from Cons.IH[OF this] True row
    show ?thesis
      by (simp add: undone_records_Cons undo_step_missing)
  next
    case False
    obtain q fs1 where q: "os_rename new_path old_path fs = (q, fs1)"
      by (cases "os_rename new_path old_path fs")
    show ?thesis
    proof (cases q)
      case (Some e)
      with q Cons.prems row False os_rename_fail[of new_path old_path fs e fs1]
      show ?thesis by (auto simp add: path_exists_def)
    next
      case None
      note ok = os_rename_ok[OF q[unfolded None]]
      from Cons.prems row False q None
      have "undo_loop rest (acc @ [(new_path, old_path)]) fs1 = (r, undone, fs')"
        by (simp add: path_exists_def)
      from Cons.IH[OF this]
      have ih: "removed (journal fs') = removed (journal fs1)"
        "\<forall>p. p \<notin> fst ` set rest \<longrightarrow> p \<notin> (fst \<circ> snd) ` set rest \<longrightarrow> files fs' p = files fs1 p"
        "r = None \<longrightarrow> undone = (acc @ [(new_path, old_path)]) @ undone_records rest (files fs1)"
        by simp_all
      from False obtain c where c: "files fs new_path = Some c" by auto
      from ok c have st: "files fs1 = undo_step (old_path, new_path, ts) (files fs)"
        by (simp add: undo_step_def)
      from ok have j: "removed (journal fs1) = removed (journal fs)" by (simp add: removed_append)
      have frame: "\<forall>p. p \<notin> fst ` set (row # rest) \<longrightarrow>
            p \<notin> (fst \<circ> snd) ` set (row # rest) \<longrightarrow> files fs' p = files fs p"
        using ih(2) ok row by auto
      from ih(3) st False row
      have res: "r = None \<longrightarrow> undone = acc @ undone_records (row # rest) (files fs)"
        by (simp add: undone_records_Cons)
      from ih(1) j frame res show ?thesis by simp
    qed
  qed
qed


text \<open>
  Claim C10, as stated, fails in its last part. A record may name the ledger file itself as its
  final path; undo then renames the ledger away, and when a later rename-back fails the
  ledger is no longer in place.
\<close>

theorem undo_self_naming_ledger:
  "fst (undo_from_log log_demo fs_selfref) = Inl UndoFailed
   \<and> files (snd (undo_from_log log_demo fs_selfref)) log_demo = None
   \<and> files (snd (undo_from_log log_demo fs_selfref)) (Path ''d'' ''x.csv'') = Some (Ledger rows_selfref)"
  by code_simp


text \<open>
  Claim C10, amended. When undo succeeds it returns exactly the records, in ledger order and
  as \<open>(final, original)\<close>, whose final path existed when the record was reached
  (\<open>undone_records\<close>); the ledger file is gone, and its removal is the last mutation, after
  every rename-back. When undo fails nothing has been removed, and the ledger file is still
  in place provided no record names the ledger file itself.
\<close>

theorem undo_from_log_spec:
  assumes led: "files fs log = Some (Ledger rows)"
  shows "case undo_from_log log fs of
      (Inr undone, fs') \<Rightarrow>
         undone = undone_records rows (files fs)
         \<and> files fs' log = None
         \<and> (\<exists>j. journal fs' = j @ [Removed log] \<and> removed j = removed (journal fs))
    | (Inl e, fs') \<Rightarrow>
         removed (journal fs') = removed (journal fs)
         \<and> (log \<notin> fst ` set rows \<longrightarrow> log \<notin> (fst \<circ> snd) ` set rows \<longrightarrow>
              files fs' log = Some (Ledger rows))"
proof -
  obtain r undone fs1 where ul: "undo_loop rows [] fs = (r, undone, fs1)"
    by (cases "undo_loop rows [] fs") auto
  note sp = undo_loop_spec[OF ul]
  show ?thesis
  proof (cases r)
    case (Some e)
    with led ul sp show ?thesis by (simp add: undo_from_log_def)
  next
    case None
    show ?thesis
    proof (cases "files fs1 log = None")
      case True
      with led ul sp None show ?thesis by (auto simp add: undo_from_log_def os_remove_def)
    next
      case False
      then obtain c where "files fs1 log = Some c" by auto
      with led ul sp None show ?thesis by (simp add: undo_from_log_def os_remove_def)
    qed
  qed
qed

theorem undo_from_log_spec_witness:
  "files fs_ledger log_demo = Some (Ledger rows_demo)
   \<and> fst (undo_from_log log_demo fs_ledger) = Inr [(Path ''d'' ''shot_1.png'', Path ''d'' ''a.png'')]
   \<and> undone_records rows_demo (files fs_ledger) = [(Path ''d'' ''shot_1.png'', Path ''d'' ''a.png'')]
   \<and> files (snd (undo_from_log log_demo fs_ledger)) log_demo = None
   \<and> files fs_ledger_locked log_demo = Some (Ledger rows_demo)
   \<and> fst (undo_from_log log_demo fs_ledger_locked) = Inl UndoFailed
   \<and> files (snd (undo_from_log log_demo fs_ledger_locked)) log_demo = Some (Ledger rows_demo)"
proof -
  have h: "files fs_ledger log_demo = Some (Ledger rows_demo)" by code_simp
  have r: "fst (undo_from_log log_demo fs_ledger) = Inr [(Path ''d'' ''shot_1.png'', Path ''d'' ''a.png'')]"
    by code_simp
  have h': "files fs_ledger_locked log_demo = Some (Ledger rows_demo)" by code_simp
  have r': "fst (undo_from_log log_demo fs_ledger_locked) = Inl UndoFailed" by code_simp
  have n: "log_demo \<notin> fst ` set rows_demo" "log_demo \<notin> (fst \<circ> snd) ` set rows_demo"
    by (simp_all add: log_demo_def rows_demo_def)
  obtain u s where us: "undo_from_log log_demo fs_ledger = (u, s)"
    by (cases "undo_from_log log_demo fs_ledger")
  obtain u' s' where us': "undo_from_log log_demo fs_ledger_locked = (u', s')"
    by (cases "undo_from_log log_demo fs_ledger_locked")
  from undo_from_log_spec[OF h] us r
  have a: "undone_records rows_demo (files fs_ledger) = [(Path ''d'' ''shot_1.png'', Path ''d'' ''a.png'')]"
       "files s log_demo = None" by auto
  from undo_from_log_spec[OF h'] us' r' n
  have b: "files s' log_demo = Some (Ledger rows_demo)" by auto
  from h r a h' r' b us us' show ?thesis by simp
qed

section \<open>Properties of \<open>natural_sort_key\<close> and \<open>get_png_files\<close>\<close>

subsection \<open>Classes of characters\<close>

lemma is_digit_code: "is_digit c \<longleftrightarrow> 48 \<le> (of_char c :: nat) \<and> (of_char c :: nat) \<le> 57"
  by (simp add: is_digit_def less_eq_char_def)









subsection \<open>The shape of a key\<close>

text \<open>
  A key starts with a string, and strings and numbers take turns in it. Python therefore
  never compares a number with a string when it compares two keys, and its \<open><\<close> on keys is the
  order of the sort.
\<close>

lemma Num_less [simp]: "(Num a < Num b) = (a < b)"
  by (auto simp: less_chunk_def)

lemma Str_less [simp]: "(Str a < Str b) = (a < b)"
  by (auto simp: less_chunk_def)












subsection \<open>Case and runs of digits\<close>







lemma is_digit_digit_char: "d < 10 \<Longrightarrow> is_digit (digit_char d)"
proof -
  assume "d < 10"
  then have "d \<in> {0,1,2,3,4,5,6,7,8,9}" by auto
  then show ?thesis by (auto simp: digit_char_def is_digit_code)
qed

lemma str_nat_digits: "\<forall>c\<in>set (str_nat n). is_digit c"
proof (induction n rule: str_nat.induct)
  case (1 n)
  show ?case
  proof (cases "n < 10")
    case True
    then show ?thesis by (simp add: str_nat.simps[of n] is_digit_digit_char)
  next
    case False
    with 1 show ?thesis by (simp add: str_nat.simps[of n] is_digit_digit_char)
  qed
qed







subsection \<open>Three frames\<close>





subsection \<open>The listing in natural order\<close>




end
